theory Spec2Isabelle
  imports Main
begin

section \<open>Annotations of the bookworm reader: highlights and bookmarks\<close>

text \<open>
  The development follows \<^verbatim>\<open>src/bookworm/annotation/annotation_gui.py\<close>: the class
  \<^verbatim>\<open>SelectionRange\<close> and the two handlers of \<^verbatim>\<open>AnnotationMenu\<close> that decide what
  happens to the stored annotations, \<^verbatim>\<open>onQuoteSelection\<close> and \<^verbatim>\<open>_add_bookmark\<close>.
  Positions are Python integers, hence \<^typ>\<open>int\<close>. The annotation tables are passed
  in and returned explicitly. Speech announcements are the outcome value of a handler;
  calls into the styling layer do not touch the tables and are left out.
\<close>

subsection \<open>Selection ranges\<close>

text \<open>
  \<^verbatim>\<open>
  @dataclass
  class SelectionRange(Container):
      start: int
      end: int
      def __contains__(self, x):
          return self.start <= x <= self.end
  \<close>
\<close>

record SelectionRange =
  range_start :: int
  range_end :: int

definition contains :: "SelectionRange \<Rightarrow> int \<Rightarrow> bool" where
  "contains r x \<longleftrightarrow> range_start r \<le> x \<and> x \<le> range_end r"

subsection \<open>The highlight table\<close>

text \<open>
  A stored highlight (a "quote") as the handler reads and writes it: \<^verbatim>\<open>q.id\<close>,
  \<^verbatim>\<open>q.start_pos\<close>, \<^verbatim>\<open>q.end_pos\<close>, \<^verbatim>\<open>q.tags\<close>, and the fields given to
  \<^verbatim>\<open>quoter.create\<close>. The table is the list of the highlights of the open book, in
  insertion order.
\<close>

record quote =
  q_id :: nat
  q_page :: nat
  q_title :: string
  q_content :: string
  start_pos :: int
  end_pos :: int
  q_tags :: "string list"

datatype error = ValidationError

text \<open>
  Modelled from the spec: the class \<^verbatim>\<open>Quoter\<close> of \<^verbatim>\<open>annotator.py\<close>, which is not
  among the sources. Its \<^verbatim>\<open>get_for_page\<close> "returns all annotations of kind on that
  page, ordered by position (or start_pos for Highlights)"; the sort is stable.
\<close>

definition quoter_get_for_page :: "quote list \<Rightarrow> nat \<Rightarrow> quote list" where
  "quoter_get_for_page st p = sort_key start_pos (filter (\<lambda>q. q_page q = p) st)"

text \<open>
  Modelled from the spec: \<^verbatim>\<open>Quoter.delete\<close>, which "removes the annotation" and is
  an "idempotent no-op if id unknown".
\<close>

definition quoter_delete :: "quote list \<Rightarrow> nat \<Rightarrow> quote list" where
  "quoter_delete st i = filter (\<lambda>q. q_id q \<noteq> i) st"

text \<open>
  Modelled from the spec: the handle given to a new highlight, "unique" within the
  document; here one more than the largest handle in the table.
\<close>

definition quoter_next_id :: "quote list \<Rightarrow> nat" where
  "quoter_next_id st = Suc (fold max (map q_id st) 0)"

text \<open>
  Modelled from the spec: \<^verbatim>\<open>Quoter.create\<close>, which "inserts a new record" on the
  current page and "fails with ValidationError ... if start_pos > end_pos for a
  Highlight". It returns the new record, to which the handler appends tags.
\<close>

definition quoter_create ::
  "quote list \<Rightarrow> nat \<Rightarrow> string \<Rightarrow> string \<Rightarrow> int \<Rightarrow> int \<Rightarrow> error + (quote \<times> quote list)" where
  "quoter_create st p ttl txt x y =
     (if x > y then Inl ValidationError
      else let q = \<lparr>q_id = quoter_next_id st, q_page = p, q_title = ttl, q_content = txt,
                     start_pos = x, end_pos = y, q_tags = []\<rparr>
           in Inr (q, st @ [q]))"

text \<open>
  The two field writes of the handler, \<^verbatim>\<open>q.start_pos = x\<close> and \<^verbatim>\<open>q.end_pos = y\<close>,
  each followed by \<^verbatim>\<open>q.session.commit()\<close>: the row of the table with the handle of
  \<^verbatim>\<open>q\<close> is written, nothing is validated.
\<close>

definition set_start_pos :: "quote list \<Rightarrow> nat \<Rightarrow> int \<Rightarrow> quote list" where
  "set_start_pos st i x = map (\<lambda>r. if q_id r = i then r\<lparr>start_pos := x\<rparr> else r) st"

definition set_end_pos :: "quote list \<Rightarrow> nat \<Rightarrow> int \<Rightarrow> quote list" where
  "set_end_pos st i y = map (\<lambda>r. if q_id r = i then r\<lparr>end_pos := y\<rparr> else r) st"

text \<open>
  \<^verbatim>\<open>quote.tags.append(tag.strip())\<close> for each tag, then a commit: the tags are
  appended to the row just created.
\<close>

definition append_tags :: "quote list \<Rightarrow> nat \<Rightarrow> string list \<Rightarrow> quote list" where
  "append_tags st i ts = map (\<lambda>r. if q_id r = i then r\<lparr>q_tags := q_tags r @ ts\<rparr> else r) st"

subsection \<open>Highlighting the selection\<close>

text \<open>
  What the handler announces: "Highlight removed", "Already highlighted" (with a bell),
  "Highlight extended" after writing \<^verbatim>\<open>end_pos\<close> or after writing \<^verbatim>\<open>start_pos\<close>,
  "Selection highlighted", and "No selection".
\<close>

datatype outcome = Removed | Rejected | ExtendedEnd | ExtendedStart | Created | NoSelection

text \<open>
  The loop of \<^verbatim>\<open>onQuoteSelection\<close> over \<^verbatim>\<open>quoter.get_for_page()\<close>. Each branch that
  announces something returns from the handler (\<open>Some\<close>); when the loop runs to its
  end the handler goes on after it (\<open>None\<close>).
  \<^verbatim>\<open>
  for q in quoter.get_for_page():
      q_range = SelectionRange(q.start_pos, q.end_pos)
      if (q_range.start == x) and (q_range.end == y):
          quoter.delete(q.id)
          return speech.announce(_("Highlight removed"))
      elif (q.start_pos < x) and (q.end_pos > y):
          speech.announce(_("Already highlighted"))
          return wx.Bell()
      if (x in q_range) or (y in q_range):
          if x not in q_range:
              q.start_pos = x
              q.session.commit()
              return speech.announce(_("Highlight extended"))
          elif y not in q_range:
              q.end_pos = y
              q.session.commit()
              return speech.announce(_("Highlight extended"))
  \<close>
\<close>

fun quote_loop :: "quote list \<Rightarrow> quote list \<Rightarrow> int \<Rightarrow> int \<Rightarrow> (outcome \<times> quote list) option" where
  "quote_loop st [] x y = None"
| "quote_loop st (q # qs) x y =
     (let q_range = \<lparr>range_start = start_pos q, range_end = end_pos q\<rparr> in
      if range_start q_range = x \<and> range_end q_range = y then
        Some (Removed, quoter_delete st (q_id q))
      else if start_pos q < x \<and> end_pos q > y then
        Some (Rejected, st)
      else if contains q_range x \<or> contains q_range y then
        (if \<not> contains q_range x then Some (ExtendedStart, set_start_pos st (q_id q) x)
         else if \<not> contains q_range y then Some (ExtendedEnd, set_end_pos st (q_id q) y)
         else quote_loop st qs x y)
      else quote_loop st qs x y)"

text \<open>
  The handler. Its inputs from the text control and the keyboard are arguments:
  \<open>selected_text\<close> is \<^verbatim>\<open>GetStringSelection()\<close>, \<open>(x, y)\<close> is \<^verbatim>\<open>GetSelection()\<close>,
  \<open>with_tags\<close> is the state of the shift key and \<open>tags\<close> is the answer to the tag
  dialog split into words (empty when the dialog gave nothing). \<open>p\<close> is the reader's
  current page.
  \<^verbatim>\<open>
  if not selected_text:
      return speech.announce(_("No selection"))
  x, y = self.view.contentTextCtrl.GetSelection()
  for q in quoter.get_for_page(): ...
  quote = quoter.create(title="", content=selected_text, start_pos=x, end_pos=y)
  speech.announce("Selection highlighted")
  if _with_tags:
      ...
      if tags_text:
          for tag in tags_text.split():
              quote.tags.append(tag.strip())
  \<close>
\<close>

definition onQuoteSelection ::
  "quote list \<Rightarrow> nat \<Rightarrow> bool \<Rightarrow> string list \<Rightarrow> string \<Rightarrow> int \<Rightarrow> int \<Rightarrow> error + (outcome \<times> quote list)" where
  "onQuoteSelection st p with_tags tags selected_text x y =
     (if selected_text = [] then Inr (NoSelection, st)
      else case quote_loop st (quoter_get_for_page st p) x y of
             Some r \<Rightarrow> Inr r
           | None \<Rightarrow>
               (case quoter_create st p [] selected_text x y of
                  Inl e \<Rightarrow> Inl e
                | Inr (quote, st') \<Rightarrow>
                    Inr (Created, if with_tags then append_tags st' (q_id quote) tags else st')))"

subsection \<open>The bookmark table\<close>

text \<open>
  A stored bookmark as the handler uses it: \<^verbatim>\<open>bkm.id\<close>, \<^verbatim>\<open>bkm.position\<close> and the
  fields given to \<^verbatim>\<open>Bookmarker.create\<close>.
\<close>

record bookmark =
  b_id :: nat
  b_page :: nat
  b_title :: string
  position :: int

text \<open>
  Modelled from the spec: the class \<^verbatim>\<open>Bookmarker\<close> of \<^verbatim>\<open>annotator.py\<close>, which is
  not among the sources. \<^verbatim>\<open>get_for_page\<close> returns the bookmarks of the page "ordered
  by position"; \<^verbatim>\<open>delete\<close> "removes the annotation" and is a no-op on an unknown
  handle; \<^verbatim>\<open>create\<close> "inserts a new record" under a handle that is "unique", and no
  field a bookmark requires can be missing in the handler's call.
\<close>

definition bookmarker_get_for_page :: "bookmark list \<Rightarrow> nat \<Rightarrow> bookmark list" where
  "bookmarker_get_for_page st p = sort_key position (filter (\<lambda>b. b_page b = p) st)"

definition bookmarker_delete :: "bookmark list \<Rightarrow> nat \<Rightarrow> bookmark list" where
  "bookmarker_delete st i = filter (\<lambda>b. b_id b \<noteq> i) st"

definition bookmarker_next_id :: "bookmark list \<Rightarrow> nat" where
  "bookmarker_next_id st = Suc (fold max (map b_id st) 0)"

definition bookmarker_create :: "bookmark list \<Rightarrow> nat \<Rightarrow> string \<Rightarrow> int \<Rightarrow> bookmark list" where
  "bookmarker_create st p ttl pos =
     st @ [\<lparr>b_id = bookmarker_next_id st, b_page = p, b_title = ttl, position = pos\<rparr>]"

subsection \<open>Adding a bookmark\<close>

datatype bookmark_outcome = BookmarkRemoved | BookmarkAdded

text \<open>
  The loop of \<^verbatim>\<open>_add_bookmark\<close>, over the bookmarks the page had when the loop
  started. \<open>lino\<close> is the line of a position in the text control (the third component
  of \<^verbatim>\<open>PositionToXY\<close>), a function of the displayed page that the handler only calls.
  \<^verbatim>\<open>
  count = 0
  for bkm in bookmarker.get_for_page(self.reader.current_page):
      __, __, lino = self.view.contentTextCtrl.PositionToXY(bkm.position)
      if lino == current_lino:
          count += 1
          bookmarker.delete(bkm.id)
  \<close>
\<close>

fun bookmark_loop ::
  "(int \<Rightarrow> int) \<Rightarrow> int \<Rightarrow> bookmark list \<Rightarrow> nat \<times> bookmark list \<Rightarrow> nat \<times> bookmark list" where
  "bookmark_loop lino current_lino [] (count, st) = (count, st)"
| "bookmark_loop lino current_lino (bkm # bs) (count, st) =
     (if lino (position bkm) = current_lino
      then bookmark_loop lino current_lino bs (count + 1, bookmarker_delete st (b_id bkm))
      else bookmark_loop lino current_lino bs (count, st))"

text \<open>
  \<^verbatim>\<open>_add_bookmark(self, name="")\<close>; \<open>insertionPoint\<close> is the caret position and \<open>p\<close>
  the reader's current page.
  \<^verbatim>\<open>
  __, __, current_lino = self.view.contentTextCtrl.PositionToXY(insertionPoint)
  ... the loop ...
  if count and not name:
      return speech.announce("Bookmark removed.")
  Bookmarker(self.reader).create(title=name, position=insertionPoint)
  speech.announce(_("Bookmark Added"))
  \<close>
\<close>

definition add_bookmark ::
  "(int \<Rightarrow> int) \<Rightarrow> bookmark list \<Rightarrow> nat \<Rightarrow> int \<Rightarrow> string \<Rightarrow> bookmark_outcome \<times> bookmark list" where
  "add_bookmark lino st p insertionPoint name =
     (let current_lino = lino insertionPoint in
      case bookmark_loop lino current_lino (bookmarker_get_for_page st p) (0, st) of
        (count, st') \<Rightarrow>
          if count \<noteq> 0 \<and> name = [] then (BookmarkRemoved, st')
          else (BookmarkAdded, bookmarker_create st' p name insertionPoint))"

text \<open>
  \<^verbatim>\<open>onAddBookmark\<close> calls \<^verbatim>\<open>self._add_bookmark()\<close>; \<^verbatim>\<open>onAddNamedBookmark\<close> asks for a
  name and calls \<^verbatim>\<open>self._add_bookmark(bookmark_name)\<close> only \<^verbatim>\<open>if bookmark_name\<close>
  (the dialog's answer, \<open>None\<close> when it was cancelled or left empty).
\<close>

definition onAddBookmark ::
  "(int \<Rightarrow> int) \<Rightarrow> bookmark list \<Rightarrow> nat \<Rightarrow> int \<Rightarrow> bookmark_outcome \<times> bookmark list" where
  "onAddBookmark lino st p insertionPoint = add_bookmark lino st p insertionPoint []"

definition onAddNamedBookmark ::
  "(int \<Rightarrow> int) \<Rightarrow> bookmark list \<Rightarrow> nat \<Rightarrow> int \<Rightarrow> string option
     \<Rightarrow> (bookmark_outcome \<times> bookmark list) option" where
  "onAddNamedBookmark lino st p insertionPoint bookmark_name =
     (case bookmark_name of
        None \<Rightarrow> None
      | Some n \<Rightarrow> if n \<noteq> [] then Some (add_bookmark lino st p insertionPoint n) else None)"

subsection \<open>Notions used by the properties\<close>

text \<open>The highlights of a page, in table order, and the bookmarks of a page on a line.\<close>

definition page_quotes :: "quote list \<Rightarrow> nat \<Rightarrow> quote list" where
  "page_quotes st p = filter (\<lambda>q. q_page q = p) st"

definition line_bookmarks :: "(int \<Rightarrow> int) \<Rightarrow> bookmark list \<Rightarrow> nat \<Rightarrow> int \<Rightarrow> bookmark list" where
  "line_bookmarks lino st p l = filter (\<lambda>b. b_page b = p \<and> lino (position b) = l) st"

text \<open>
  The bookmark table without the rows that carry the handle of a bookmark of line \<open>l\<close>
  of page \<open>p\<close>: what the loop of \<^verbatim>\<open>_add_bookmark\<close> leaves.
\<close>

definition without_line :: "(int \<Rightarrow> int) \<Rightarrow> bookmark list \<Rightarrow> nat \<Rightarrow> int \<Rightarrow> bookmark list" where
  "without_line lino st p l =
     filter (\<lambda>b. b_id b \<notin> set (map b_id (line_bookmarks lino st p l))) st"

text \<open>
  Two highlights overlap when their closed intervals \<open>[start_pos, end_pos]\<close> share a
  position; a highlight meets the candidate \<open>[x, y]\<close> likewise.
\<close>

definition overlap :: "quote \<Rightarrow> quote \<Rightarrow> bool" where
  "overlap q r \<longleftrightarrow> start_pos q \<le> end_pos r \<and> start_pos r \<le> end_pos q"

definition meets :: "quote \<Rightarrow> int \<Rightarrow> int \<Rightarrow> bool" where
  "meets q x y \<longleftrightarrow> start_pos q \<le> y \<and> x \<le> end_pos q"

fun pairwise_disjoint :: "quote list \<Rightarrow> bool" where
  "pairwise_disjoint [] = True"
| "pairwise_disjoint (q # qs) = (list_all (\<lambda>r. \<not> overlap q r) qs \<and> pairwise_disjoint qs)"

definition well_formed :: "quote list \<Rightarrow> bool" where
  "well_formed qs = list_all (\<lambda>q. start_pos q \<le> end_pos q) qs"

text \<open>
  The body of the loop lets a highlight pass when it returns nothing for it, so that
  the loop goes on to the next one.
\<close>

definition passes :: "quote \<Rightarrow> int \<Rightarrow> int \<Rightarrow> bool" where
  "passes q x y \<longleftrightarrow> quote_loop [] [q] x y = None"

text \<open>
  The resolution in the spec's words: "the first range satisfying a match wins", and
  per range the cases are tried in the order exact match, candidate strictly inside,
  candidate's start inside but not its end, candidate's end inside but not its start;
  when no range matches the outcome is \<open>Created\<close>.
\<close>

definition spec_case :: "quote \<Rightarrow> int \<Rightarrow> int \<Rightarrow> outcome option" where
  "spec_case q x y =
     (let s = start_pos q; e = end_pos q in
      if s = x \<and> e = y then Some Removed
      else if s < x \<and> e > y then Some Rejected
      else if (s \<le> x \<and> x \<le> e) \<and> \<not> (s \<le> y \<and> y \<le> e) then Some ExtendedEnd
      else if (s \<le> y \<and> y \<le> e) \<and> \<not> (s \<le> x \<and> x \<le> e) then Some ExtendedStart
      else None)"

fun spec_resolve :: "quote list \<Rightarrow> int \<Rightarrow> int \<Rightarrow> outcome \<times> quote option" where
  "spec_resolve [] x y = (Created, None)"
| "spec_resolve (q # qs) x y =
     (case spec_case q x y of Some oc \<Rightarrow> (oc, Some q) | None \<Rightarrow> spec_resolve qs x y)"

text \<open>
  The row the handler creates: the arguments of \<^verbatim>\<open>quoter.create\<close> with the next
  handle, and the tags appended when the shift key was down.
\<close>

definition new_highlight ::
  "quote list \<Rightarrow> nat \<Rightarrow> bool \<Rightarrow> string list \<Rightarrow> string \<Rightarrow> int \<Rightarrow> int \<Rightarrow> quote" where
  "new_highlight st p with_tags tags selected_text x y =
     \<lparr>q_id = quoter_next_id st, q_page = p, q_title = [], q_content = selected_text,
      start_pos = x, end_pos = y, q_tags = (if with_tags then tags else [])\<rparr>"

text \<open>A highlight of page 0 with the selected text \<open>''t''\<close>, for the examples.\<close>

definition hl :: "nat \<Rightarrow> int \<Rightarrow> int \<Rightarrow> quote" where
  "hl i s e = \<lparr>q_id = i, q_page = 0, q_title = [], q_content = ''t'',
               start_pos = s, end_pos = e, q_tags = []\<rparr>"

definition bm :: "nat \<Rightarrow> string \<Rightarrow> int \<Rightarrow> bookmark" where
  "bm i n pos = \<lparr>b_id = i, b_page = 0, b_title = n, position = pos\<rparr>"

text \<open>A text control that shows ten positions on a line, for the examples.\<close>

definition line_of :: "int \<Rightarrow> int" where
  "line_of pos = pos div 10"

text \<open>
  The conditions of the loop body, named: the highlight is exactly the candidate; the
  candidate is strictly inside it (\<^verbatim>\<open>q.start_pos < x and q.end_pos > y\<close>); a
  position is in the highlight's \<^verbatim>\<open>SelectionRange\<close>.
\<close>

definition exact :: "quote \<Rightarrow> int \<Rightarrow> int \<Rightarrow> bool" where
  "exact q x y \<longleftrightarrow> start_pos q = x \<and> end_pos q = y"

definition inside :: "quote \<Rightarrow> int \<Rightarrow> int \<Rightarrow> bool" where
  "inside q x y \<longleftrightarrow> start_pos q < x \<and> end_pos q > y"

definition within :: "quote \<Rightarrow> int \<Rightarrow> bool" where
  "within q x \<longleftrightarrow> start_pos q \<le> x \<and> x \<le> end_pos q"

section \<open>The loop over the highlights of the page\<close>

lemma contains_within:
  "contains \<lparr>range_start = start_pos q, range_end = end_pos q\<rparr> x = within q x"
  by (simp add: contains_def within_def)

lemma quote_loop_unfold:
  "quote_loop st (q # qs) x y =
     (if exact q x y then Some (Removed, quoter_delete st (q_id q))
      else if inside q x y then Some (Rejected, st)
      else if within q x \<or> within q y then
        (if \<not> within q x then Some (ExtendedStart, set_start_pos st (q_id q) x)
         else if \<not> within q y then Some (ExtendedEnd, set_end_pos st (q_id q) y)
         else quote_loop st qs x y)
      else quote_loop st qs x y)"
  by (simp only: quote_loop.simps Let_def contains_within SelectionRange.select_convs
        exact_def inside_def)

declare quote_loop.simps(2) [simp del]

lemma quote_loop_exact:
  "exact q x y \<Longrightarrow> quote_loop st (q # qs) x y = Some (Removed, quoter_delete st (q_id q))"
  by (simp only: quote_loop_unfold if_True)

lemma quote_loop_inside:
  "\<not> exact q x y \<Longrightarrow> inside q x y \<Longrightarrow> quote_loop st (q # qs) x y = Some (Rejected, st)"
  by (simp only: quote_loop_unfold if_True if_False)

lemma quote_loop_start:
  "\<not> exact q x y \<Longrightarrow> \<not> inside q x y \<Longrightarrow> \<not> within q x \<Longrightarrow> within q y \<Longrightarrow>
   quote_loop st (q # qs) x y = Some (ExtendedStart, set_start_pos st (q_id q) x)"
  by (simp only: quote_loop_unfold if_True if_False simp_thms)

lemma quote_loop_end:
  "\<not> exact q x y \<Longrightarrow> \<not> inside q x y \<Longrightarrow> within q x \<Longrightarrow> \<not> within q y \<Longrightarrow>
   quote_loop st (q # qs) x y = Some (ExtendedEnd, set_end_pos st (q_id q) y)"
  by (simp only: quote_loop_unfold if_True if_False simp_thms)

lemma quote_loop_next:
  "\<not> exact q x y \<Longrightarrow> \<not> inside q x y \<Longrightarrow> within q x = within q y \<Longrightarrow>
   quote_loop st (q # qs) x y = quote_loop st qs x y"
  by (cases "within q y") (simp_all only: quote_loop_unfold if_True if_False simp_thms)

lemma passes_iff:
  "passes q x y \<longleftrightarrow> \<not> exact q x y \<and> \<not> inside q x y \<and> within q x = within q y"
  unfolding passes_def quote_loop_unfold by simp

lemma quote_loop_Cons:
  "quote_loop st (q # qs) x y =
     (if passes q x y then quote_loop st qs x y else quote_loop st [q] x y)"
  unfolding passes_iff quote_loop_unfold [of st q] by simp

lemma quote_loop_prefix:
  "list_all (\<lambda>r. passes r x y) pre \<Longrightarrow> quote_loop st (pre @ qs) x y = quote_loop st qs x y"
proof (induction pre)
  case Nil
  show ?case by simp
next
  case (Cons a pre)
  then have "passes a x y" and "quote_loop st (pre @ qs) x y = quote_loop st qs x y"
    by simp_all
  then show ?case using quote_loop_Cons [of st a "pre @ qs" x y] by simp
qed

lemma set_quoter_get_for_page: "set (quoter_get_for_page st p) = set (page_quotes st p)"
  by (simp add: quoter_get_for_page_def page_quotes_def)

lemma first_in_table:
  "quoter_get_for_page st p = pre @ q # post \<Longrightarrow> q \<in> set st \<and> q_page q = p"
proof -
  assume "quoter_get_for_page st p = pre @ q # post"
  then have "q \<in> set (quoter_get_for_page st p)" by simp
  then show ?thesis by (simp add: set_quoter_get_for_page page_quotes_def)
qed

text \<open>
  When the highlights before \<open>q\<close> in the order of the page all pass and the body
  returns something for \<open>q\<close>, the handler returns just that.
\<close>

lemma handler_first:
  assumes "selected_text \<noteq> []" and "quoter_get_for_page st p = pre @ q # post"
    and "list_all (\<lambda>r. passes r x y) pre" and "quote_loop st (q # post) x y = Some r"
  shows "onQuoteSelection st p with_tags tags selected_text x y = Inr r"
proof -
  have "quote_loop st (quoter_get_for_page st p) x y = Some r"
    using assms(3,4) by (simp only: assms(2) quote_loop_prefix)
  with assms(1) show ?thesis by (simp add: onQuoteSelection_def)
qed

lemma distinct_ids_eq:
  "distinct (map q_id st) \<Longrightarrow> q \<in> set st \<Longrightarrow> r \<in> set st \<Longrightarrow> q_id r = q_id q \<Longrightarrow> r = q"
  by (meson distinct_map inj_onD)

section \<open>An exact match removes the highlight\<close>

text \<open>
  C2, as amended. When the candidate \<open>[x, y]\<close> equals the bounds of a stored
  highlight \<open>q\<close> of the page and \<open>q\<close> is the first highlight in the order of the page
  for which the loop returns (all earlier ones pass), the handler announces the
  removal and the table is the old one without the rows of \<open>q\<close>'s handle: \<open>q\<close> was
  stored and is no more, no row is new, the table is shorter; and when no other
  highlight of the page had the same bounds, no highlight of the page has the bounds
  \<open>[x, y]\<close> afterwards.
\<close>

theorem exact_match_removed:
  assumes "selected_text \<noteq> []" and "quoter_get_for_page st p = pre @ q # post"
    and "list_all (\<lambda>r. passes r x y) pre" and "start_pos q = x" and "end_pos q = y"
  shows "onQuoteSelection st p with_tags tags selected_text x y
           = Inr (Removed, quoter_delete st (q_id q))
    \<and> q \<in> set st \<and> q \<notin> set (quoter_delete st (q_id q))
    \<and> (\<forall>r \<in> set (quoter_delete st (q_id q)). q_id r \<noteq> q_id q)
    \<and> set (quoter_delete st (q_id q)) \<subseteq> set st
    \<and> length (quoter_delete st (q_id q)) < length st
    \<and> ((\<forall>r \<in> set (page_quotes st p). start_pos r = x \<and> end_pos r = y \<longrightarrow> q_id r = q_id q)
        \<longrightarrow> (\<forall>r \<in> set (page_quotes (quoter_delete st (q_id q)) p).
               \<not> (start_pos r = x \<and> end_pos r = y)))"
proof -
  have "exact q x y" using assms(4,5) by (simp add: exact_def)
  then have "quote_loop st (q # post) x y = Some (Removed, quoter_delete st (q_id q))"
    by (rule quote_loop_exact)
  then have res: "onQuoteSelection st p with_tags tags selected_text x y
      = Inr (Removed, quoter_delete st (q_id q))"
    by (rule handler_first [OF assms(1,2,3)])
  have mem: "q \<in> set st" using first_in_table [OF assms(2)] by simp
  have len: "length (quoter_delete st (q_id q)) < length st"
    unfolding quoter_delete_def using mem by (intro length_filter_less [of q]) simp_all
  show ?thesis using res mem len by (auto simp: quoter_delete_def page_quotes_def)
qed

theorem exact_match_removed_witness:
  "quoter_get_for_page [hl 1 1 5, hl 2 10 20] 0 = [hl 1 1 5] @ hl 2 10 20 # []
   \<and> list_all (\<lambda>r. passes r 10 20) [hl 1 1 5]
   \<and> onQuoteSelection [hl 1 1 5, hl 2 10 20] 0 False [] ''t'' 10 20 = Inr (Removed, [hl 1 1 5])
   \<and> hl 2 10 20 \<notin> set [hl 1 1 5]"
proof -
  have h1: "''t'' \<noteq> []" by simp
  have h2: "quoter_get_for_page [hl 1 1 5, hl 2 10 20] 0 = [hl 1 1 5] @ hl 2 10 20 # []"
    by code_simp
  have h3: "list_all (\<lambda>r. passes r 10 20) [hl 1 1 5]" by code_simp
  have h4: "start_pos (hl 2 10 20) = 10" and h5: "end_pos (hl 2 10 20) = 20"
    by (simp_all add: hl_def)
  have d: "quoter_delete [hl 1 1 5, hl 2 10 20] (q_id (hl 2 10 20)) = [hl 1 1 5]"
    by code_simp
  have n: "hl 2 10 20 \<notin> set [hl 1 1 5]" by code_simp
  show ?thesis
    using exact_match_removed [OF h1 h2 h3 h4 h5, of False "[]"] h2 h3 n
    by (simp only: d simp_thms)
qed

text \<open>
  The claim as stated, that the table no longer contains the range, fails when a
  second highlight has the same bounds: three selections on an empty page store
  \<open>[10, 20]\<close> twice (the second highlight is created as \<open>[10, 15]\<close> and then
  extended at its end); the candidate \<open>[10, 20]\<close> is an exact match of the first in
  the order of the page, the loop deletes that one and returns, and the other
  \<open>[10, 20]\<close> is still stored.
\<close>

theorem exact_match_range_remains_counterexample:
  "onQuoteSelection [] 0 False [] ''t'' 10 20 = Inr (Created, [hl 1 10 20])
   \<and> onQuoteSelection [hl 1 10 20] 0 False [] ''t'' 10 15
       = Inr (Created, [hl 1 10 20, hl 2 10 15])
   \<and> onQuoteSelection [hl 1 10 20, hl 2 10 15] 0 False [] ''t'' 12 20
       = Inr (ExtendedEnd, [hl 1 10 20, hl 2 10 20])
   \<and> quoter_get_for_page [hl 1 10 20, hl 2 10 20] 0 = [] @ hl 1 10 20 # [hl 2 10 20]
   \<and> start_pos (hl 1 10 20) = 10 \<and> end_pos (hl 1 10 20) = 20
   \<and> onQuoteSelection [hl 1 10 20, hl 2 10 20] 0 False [] ''t'' 10 20
       = Inr (Removed, [hl 2 10 20])
   \<and> hl 2 10 20 \<in> set (page_quotes [hl 2 10 20] 0)
   \<and> start_pos (hl 2 10 20) = 10 \<and> end_pos (hl 2 10 20) = 20"
  by code_simp

section \<open>A candidate strictly inside a highlight is rejected\<close>

text \<open>
  C3, as amended. When a stored highlight \<open>q\<close> of the page has \<open>start_pos q < x\<close> and
  \<open>end_pos q > y\<close>, and every highlight before \<open>q\<close> in the order of the page passes,
  the handler announces "Already highlighted" and returns the table as it was.
\<close>

theorem strictly_inside_rejected:
  assumes "selected_text \<noteq> []" and "quoter_get_for_page st p = pre @ q # post"
    and "list_all (\<lambda>r. passes r x y) pre" and "start_pos q < x" and "end_pos q > y"
  shows "onQuoteSelection st p with_tags tags selected_text x y = Inr (Rejected, st)"
proof -
  have "\<not> exact q x y" and "inside q x y"
    using assms(4,5) by (simp_all add: exact_def inside_def)
  then have "quote_loop st (q # post) x y = Some (Rejected, st)"
    by (rule quote_loop_inside)
  then show ?thesis by (rule handler_first [OF assms(1,2,3)])
qed

theorem strictly_inside_rejected_witness:
  "quoter_get_for_page [hl 1 1 5, hl 2 10 20] 0 = [hl 1 1 5] @ hl 2 10 20 # []
   \<and> list_all (\<lambda>r. passes r 12 15) [hl 1 1 5]
   \<and> start_pos (hl 2 10 20) < 12 \<and> end_pos (hl 2 10 20) > 15
   \<and> onQuoteSelection [hl 1 1 5, hl 2 10 20] 0 False [] ''t'' 12 15
       = Inr (Rejected, [hl 1 1 5, hl 2 10 20])"
proof -
  have h1: "''t'' \<noteq> []" by simp
  have h2: "quoter_get_for_page [hl 1 1 5, hl 2 10 20] 0 = [hl 1 1 5] @ hl 2 10 20 # []"
    by code_simp
  have h3: "list_all (\<lambda>r. passes r 12 15) [hl 1 1 5]" by code_simp
  have h4: "start_pos (hl 2 10 20) < 12" and h5: "end_pos (hl 2 10 20) > 15"
    by (simp_all add: hl_def)
  show ?thesis
    using strictly_inside_rejected [OF h1 h2 h3 h4 h5, of False "[]"] h2 h3 h4 h5 by simp
qed

text \<open>
  The claim as stated, for every stored highlight with \<open>s < x\<close> and \<open>e > y\<close>, fails:
  three selections on an empty page store \<open>[5, 16]\<close> and \<open>[10, 30]\<close>; the candidate
  \<open>[15, 18]\<close> is strictly inside \<open>[10, 30]\<close>, yet the loop returns at \<open>[5, 16]\<close>, which
  comes first, and extends it.
\<close>

theorem strictly_inside_not_rejected_counterexample:
  "onQuoteSelection [] 0 False [] ''t'' 5 8 = Inr (Created, [hl 1 5 8])
   \<and> onQuoteSelection [hl 1 5 8] 0 False [] ''t'' 10 30 = Inr (Created, [hl 1 5 8, hl 2 10 30])
   \<and> onQuoteSelection [hl 1 5 8, hl 2 10 30] 0 False [] ''t'' 7 16
       = Inr (ExtendedEnd, [hl 1 5 16, hl 2 10 30])
   \<and> hl 2 10 30 \<in> set (quoter_get_for_page [hl 1 5 16, hl 2 10 30] 0)
   \<and> start_pos (hl 2 10 30) < 15 \<and> end_pos (hl 2 10 30) > 18
   \<and> onQuoteSelection [hl 1 5 16, hl 2 10 30] 0 False [] ''t'' 15 18
       = Inr (ExtendedEnd, [hl 1 5 18, hl 2 10 30])
   \<and> onQuoteSelection [hl 1 5 16, hl 2 10 30] 0 False [] ''t'' 15 18
       \<noteq> Inr (Rejected, [hl 1 5 16, hl 2 10 30])"
  by code_simp

section \<open>Extending a highlight at its end\<close>

lemma map_field_set_end_pos:
  "map q_id (set_end_pos st i y) = map q_id st"
  "map start_pos (set_end_pos st i y) = map start_pos st"
  "map q_content (set_end_pos st i y) = map q_content st"
  "map q_page (set_end_pos st i y) = map q_page st"
  by (simp_all add: set_end_pos_def)

lemma map_field_set_start_pos:
  "map q_id (set_start_pos st i x) = map q_id st"
  "map end_pos (set_start_pos st i x) = map end_pos st"
  "map q_content (set_start_pos st i x) = map q_content st"
  "map q_page (set_start_pos st i x) = map q_page st"
  by (simp_all add: set_start_pos_def)

text \<open>
  C4, as amended. When a stored highlight \<open>q = [s, e]\<close> of the page has \<open>s \<le> x \<le> e\<close>
  and \<open>y > e\<close>, and every highlight before \<open>q\<close> in the order of the page passes, the
  handler announces the extension after writing \<open>end_pos\<close>: the table holds \<open>q\<close> with
  \<open>end_pos = y\<close>; the handles, the start positions and the contents of all rows are
  what they were, so no row is new; and with unique handles every row but \<open>q\<close> is
  unchanged.
\<close>

theorem extend_end:
  assumes "selected_text \<noteq> []" and "quoter_get_for_page st p = pre @ q # post"
    and "list_all (\<lambda>r. passes r x y) pre"
    and "start_pos q \<le> x" and "x \<le> end_pos q" and "y > end_pos q"
  shows "onQuoteSelection st p with_tags tags selected_text x y
           = Inr (ExtendedEnd, set_end_pos st (q_id q) y)
    \<and> q\<lparr>end_pos := y\<rparr> \<in> set (set_end_pos st (q_id q) y)
    \<and> map q_id (set_end_pos st (q_id q) y) = map q_id st
    \<and> map start_pos (set_end_pos st (q_id q) y) = map start_pos st
    \<and> map q_content (set_end_pos st (q_id q) y) = map q_content st
    \<and> (distinct (map q_id st) \<longrightarrow>
         set_end_pos st (q_id q) y = map (\<lambda>r. if r = q then q\<lparr>end_pos := y\<rparr> else r) st)"
proof -
  have "\<not> exact q x y" "\<not> inside q x y" "within q x" "\<not> within q y"
    using assms(4,5,6) by (simp_all add: exact_def inside_def within_def)
  then have "quote_loop st (q # post) x y = Some (ExtendedEnd, set_end_pos st (q_id q) y)"
    by (rule quote_loop_end)
  then have res: "onQuoteSelection st p with_tags tags selected_text x y
      = Inr (ExtendedEnd, set_end_pos st (q_id q) y)"
    by (rule handler_first [OF assms(1,2,3)])
  have mem: "q \<in> set st" using first_in_table [OF assms(2)] by simp
  then have new: "q\<lparr>end_pos := y\<rparr> \<in> set (set_end_pos st (q_id q) y)"
    by (force simp: set_end_pos_def)
  have "set_end_pos st (q_id q) y = map (\<lambda>r. if r = q then q\<lparr>end_pos := y\<rparr> else r) st"
    if "distinct (map q_id st)"
    unfolding set_end_pos_def using distinct_ids_eq [OF that mem] by (intro map_cong) auto
  with res new show ?thesis by (simp add: map_field_set_end_pos)
qed

theorem extend_end_witness:
  "quoter_get_for_page [hl 1 1 5, hl 2 10 20] 0 = [hl 1 1 5] @ hl 2 10 20 # []
   \<and> list_all (\<lambda>r. passes r 15 25) [hl 1 1 5]
   \<and> start_pos (hl 2 10 20) \<le> 15 \<and> 15 \<le> end_pos (hl 2 10 20) \<and> 25 > end_pos (hl 2 10 20)
   \<and> distinct (map q_id [hl 1 1 5, hl 2 10 20])
   \<and> onQuoteSelection [hl 1 1 5, hl 2 10 20] 0 False [] ''t'' 15 25
       = Inr (ExtendedEnd, [hl 1 1 5, hl 2 10 25])"
proof -
  have h1: "''t'' \<noteq> []" by simp
  have h2: "quoter_get_for_page [hl 1 1 5, hl 2 10 20] 0 = [hl 1 1 5] @ hl 2 10 20 # []"
    by code_simp
  have h3: "list_all (\<lambda>r. passes r 15 25) [hl 1 1 5]" by code_simp
  have h4: "start_pos (hl 2 10 20) \<le> 15" and h5: "15 \<le> end_pos (hl 2 10 20)"
    and h6: "25 > end_pos (hl 2 10 20)"
    by (simp_all add: hl_def)
  have d: "distinct (map q_id [hl 1 1 5, hl 2 10 20])" by code_simp
  have e: "set_end_pos [hl 1 1 5, hl 2 10 20] (q_id (hl 2 10 20)) 25 = [hl 1 1 5, hl 2 10 25]"
    by code_simp
  show ?thesis
    using extend_end [OF h1 h2 h3 h4 h5 h6, of False "[]"] h2 h3 h4 h5 h6 d
    by (simp only: e simp_thms)
qed

text \<open>
  The claim as stated, for every stored highlight with \<open>s \<le> x \<le> e\<close> and \<open>y > e\<close>,
  fails: three selections on an empty page store \<open>[5, 50]\<close> and \<open>[10, 30]\<close>; the
  candidate \<open>[15, 40]\<close> starts inside \<open>[10, 30]\<close> and ends after it, yet the loop
  returns at \<open>[5, 50]\<close>, which comes first and has the candidate strictly inside, and
  nothing is extended.
\<close>

theorem extend_end_not_first_counterexample:
  "onQuoteSelection [] 0 False [] ''t'' 5 8 = Inr (Created, [hl 1 5 8])
   \<and> onQuoteSelection [hl 1 5 8] 0 False [] ''t'' 10 30 = Inr (Created, [hl 1 5 8, hl 2 10 30])
   \<and> onQuoteSelection [hl 1 5 8, hl 2 10 30] 0 False [] ''t'' 7 50
       = Inr (ExtendedEnd, [hl 1 5 50, hl 2 10 30])
   \<and> hl 2 10 30 \<in> set (quoter_get_for_page [hl 1 5 50, hl 2 10 30] 0)
   \<and> start_pos (hl 2 10 30) \<le> 15 \<and> 15 \<le> end_pos (hl 2 10 30) \<and> 40 > end_pos (hl 2 10 30)
   \<and> onQuoteSelection [hl 1 5 50, hl 2 10 30] 0 False [] ''t'' 15 40
       = Inr (Rejected, [hl 1 5 50, hl 2 10 30])"
  by code_simp

section \<open>Extending a highlight at its start\<close>

text \<open>
  C5, as amended. When a stored highlight \<open>q = [s, e]\<close> of the page has \<open>s \<le> y \<le> e\<close>
  and \<open>x < s\<close>, and every highlight before \<open>q\<close> in the order of the page passes, the
  handler announces the extension after writing \<open>start_pos\<close>: the table holds \<open>q\<close> with
  \<open>start_pos = x\<close>; the handles, the end positions and the contents of all rows are
  what they were, so no row is new; and with unique handles every row but \<open>q\<close> is
  unchanged.
\<close>

theorem extend_start:
  assumes "selected_text \<noteq> []" and "quoter_get_for_page st p = pre @ q # post"
    and "list_all (\<lambda>r. passes r x y) pre"
    and "start_pos q \<le> y" and "y \<le> end_pos q" and "x < start_pos q"
  shows "onQuoteSelection st p with_tags tags selected_text x y
           = Inr (ExtendedStart, set_start_pos st (q_id q) x)
    \<and> q\<lparr>start_pos := x\<rparr> \<in> set (set_start_pos st (q_id q) x)
    \<and> map q_id (set_start_pos st (q_id q) x) = map q_id st
    \<and> map end_pos (set_start_pos st (q_id q) x) = map end_pos st
    \<and> map q_content (set_start_pos st (q_id q) x) = map q_content st
    \<and> (distinct (map q_id st) \<longrightarrow>
         set_start_pos st (q_id q) x = map (\<lambda>r. if r = q then q\<lparr>start_pos := x\<rparr> else r) st)"
proof -
  have "\<not> exact q x y" "\<not> inside q x y" "\<not> within q x" "within q y"
    using assms(4,5,6) by (simp_all add: exact_def inside_def within_def)
  then have "quote_loop st (q # post) x y = Some (ExtendedStart, set_start_pos st (q_id q) x)"
    by (rule quote_loop_start)
  then have res: "onQuoteSelection st p with_tags tags selected_text x y
      = Inr (ExtendedStart, set_start_pos st (q_id q) x)"
    by (rule handler_first [OF assms(1,2,3)])
  have mem: "q \<in> set st" using first_in_table [OF assms(2)] by simp
  then have new: "q\<lparr>start_pos := x\<rparr> \<in> set (set_start_pos st (q_id q) x)"
    by (force simp: set_start_pos_def)
  have "set_start_pos st (q_id q) x = map (\<lambda>r. if r = q then q\<lparr>start_pos := x\<rparr> else r) st"
    if "distinct (map q_id st)"
    unfolding set_start_pos_def using distinct_ids_eq [OF that mem] by (intro map_cong) auto
  with res new show ?thesis by (simp add: map_field_set_start_pos)
qed

theorem extend_start_witness:
  "quoter_get_for_page [hl 1 1 5, hl 2 10 20] 0 = [hl 1 1 5] @ hl 2 10 20 # []
   \<and> list_all (\<lambda>r. passes r 7 12) [hl 1 1 5]
   \<and> start_pos (hl 2 10 20) \<le> 12 \<and> 12 \<le> end_pos (hl 2 10 20) \<and> 7 < start_pos (hl 2 10 20)
   \<and> distinct (map q_id [hl 1 1 5, hl 2 10 20])
   \<and> onQuoteSelection [hl 1 1 5, hl 2 10 20] 0 False [] ''t'' 7 12
       = Inr (ExtendedStart, [hl 1 1 5, hl 2 7 20])"
proof -
  have h1: "''t'' \<noteq> []" by simp
  have h2: "quoter_get_for_page [hl 1 1 5, hl 2 10 20] 0 = [hl 1 1 5] @ hl 2 10 20 # []"
    by code_simp
  have h3: "list_all (\<lambda>r. passes r 7 12) [hl 1 1 5]" by code_simp
  have h4: "start_pos (hl 2 10 20) \<le> 12" and h5: "12 \<le> end_pos (hl 2 10 20)"
    and h6: "7 < start_pos (hl 2 10 20)"
    by (simp_all add: hl_def)
  have d: "distinct (map q_id [hl 1 1 5, hl 2 10 20])" by code_simp
  have e: "set_start_pos [hl 1 1 5, hl 2 10 20] (q_id (hl 2 10 20)) 7 = [hl 1 1 5, hl 2 7 20]"
    by code_simp
  show ?thesis
    using extend_start [OF h1 h2 h3 h4 h5 h6, of False "[]"] h2 h3 h4 h5 h6 d
    by (simp only: e simp_thms)
qed

text \<open>
  The claim as stated, for every stored highlight with \<open>s \<le> y \<le> e\<close> and \<open>x < s\<close>,
  fails on a page of two disjoint highlights \<open>[1, 5]\<close> and \<open>[10, 20]\<close>: the candidate
  \<open>[3, 12]\<close> ends inside \<open>[10, 20]\<close> and starts before it, yet the loop returns at
  \<open>[1, 5]\<close>, which comes first, and extends that one at its end; \<open>[10, 20]\<close> stays.
\<close>

theorem extend_start_not_first_counterexample:
  "onQuoteSelection [] 0 False [] ''t'' 1 5 = Inr (Created, [hl 1 1 5])
   \<and> onQuoteSelection [hl 1 1 5] 0 False [] ''t'' 10 20 = Inr (Created, [hl 1 1 5, hl 2 10 20])
   \<and> hl 2 10 20 \<in> set (quoter_get_for_page [hl 1 1 5, hl 2 10 20] 0)
   \<and> start_pos (hl 2 10 20) \<le> 12 \<and> 12 \<le> end_pos (hl 2 10 20) \<and> 3 < start_pos (hl 2 10 20)
   \<and> onQuoteSelection [hl 1 1 5, hl 2 10 20] 0 False [] ''t'' 3 12
       = Inr (ExtendedEnd, [hl 1 1 12, hl 2 10 20])"
  by code_simp

section \<open>The handler returns what the first matching range determines\<close>

lemma spec_case_None: "spec_case q x y = None \<longleftrightarrow> passes q x y"
  unfolding passes_iff by (auto simp: spec_case_def Let_def exact_def inside_def within_def)

lemma spec_case_Some:
  assumes "spec_case q x y = Some oc"
  shows "(\<exists>st'. quote_loop st (q # qs) x y = Some (oc, st')) \<and> oc \<noteq> Created \<and> oc \<noteq> NoSelection"
proof -
  consider (a) "exact q x y" "oc = Removed"
    | (b) "\<not> exact q x y" "inside q x y" "oc = Rejected"
    | (c) "\<not> exact q x y" "\<not> inside q x y" "within q x" "\<not> within q y" "oc = ExtendedEnd"
    | (d) "\<not> exact q x y" "\<not> inside q x y" "\<not> within q x" "within q y" "oc = ExtendedStart"
    using assms
    by (auto simp: spec_case_def Let_def exact_def inside_def within_def split: if_splits)
  then show ?thesis
  proof cases
    case a
    then show ?thesis by (simp add: quote_loop_exact)
  next
    case b
    then show ?thesis by (simp add: quote_loop_inside)
  next
    case c
    then show ?thesis by (simp add: quote_loop_end)
  next
    case d
    then show ?thesis by (simp add: quote_loop_start)
  qed
qed

lemma spec_resolve_None:
  "snd (spec_resolve qs x y) = None \<Longrightarrow>
   fst (spec_resolve qs x y) = Created \<and> quote_loop st qs x y = None"
proof (induction qs)
  case Nil
  show ?case by simp
next
  case (Cons a qs)
  show ?case
  proof (cases "spec_case a x y")
    case None
    then have "passes a x y" by (simp add: spec_case_None)
    with None Cons show ?thesis by (simp add: quote_loop_Cons [of st a qs])
  next
    case (Some oc)
    with Cons.prems show ?thesis by simp
  qed
qed

lemma spec_resolve_Some:
  "snd (spec_resolve qs x y) = Some q \<Longrightarrow>
   quote_loop st qs x y = quote_loop st [q] x y
   \<and> (\<exists>st'. quote_loop st [q] x y = Some (fst (spec_resolve qs x y), st'))
   \<and> fst (spec_resolve qs x y) \<noteq> Created \<and> fst (spec_resolve qs x y) \<noteq> NoSelection"
proof (induction qs)
  case Nil
  then show ?case by simp
next
  case (Cons a qs)
  show ?case
  proof (cases "spec_case a x y")
    case None
    then have "passes a x y" by (simp add: spec_case_None)
    with None Cons show ?thesis by (simp add: quote_loop_Cons [of st a qs])
  next
    case (Some oc)
    with Cons.prems have q: "q = a" by simp
    from Some have "\<not> passes a x y" using spec_case_None [of a x y] by simp
    then have "quote_loop st (a # qs) x y = quote_loop st [a] x y"
      by (simp add: quote_loop_Cons [of st a qs])
    with spec_case_Some [OF Some, of st "[]"] Some q show ?thesis by simp
  qed
qed

text \<open>
  C6. For a candidate with \<open>x \<le> y\<close> (and a selection that is not empty) the handler
  returns exactly one result, and its outcome is the one the spec's resolution gives
  on the highlights of the page in their order: the case, tried in the order exact,
  strictly inside, start inside only, end inside only, of the first highlight that
  matches one. The table returned is what the loop body does with that highlight
  alone, whatever comes after it; when no highlight matches, the outcome is
  \<open>Created\<close>.
\<close>

theorem first_match_decides:
  assumes "selected_text \<noteq> []" and "x \<le> y"
  shows "\<exists>st'. onQuoteSelection st p with_tags tags selected_text x y
                 = Inr (fst (spec_resolve (quoter_get_for_page st p) x y), st')
     \<and> fst (spec_resolve (quoter_get_for_page st p) x y) \<noteq> NoSelection
     \<and> (\<forall>q. snd (spec_resolve (quoter_get_for_page st p) x y) = Some q \<longrightarrow>
            quote_loop st [q] x y
              = Some (fst (spec_resolve (quoter_get_for_page st p) x y), st'))
     \<and> (snd (spec_resolve (quoter_get_for_page st p) x y) = None \<longrightarrow>
            fst (spec_resolve (quoter_get_for_page st p) x y) = Created)"
proof (cases "snd (spec_resolve (quoter_get_for_page st p) x y)")
  case None
  from spec_resolve_None [OF None, of st]
  have c: "fst (spec_resolve (quoter_get_for_page st p) x y) = Created"
    and l: "quote_loop st (quoter_get_for_page st p) x y = None"
    by simp_all
  from assms l have "\<exists>st'. onQuoteSelection st p with_tags tags selected_text x y
      = Inr (Created, st')"
    by (simp add: onQuoteSelection_def quoter_create_def Let_def)
  with None c show ?thesis by simp
next
  case (Some q)
  from spec_resolve_Some [OF Some, of st] obtain st' where
    l: "quote_loop st (quoter_get_for_page st p) x y
          = Some (fst (spec_resolve (quoter_get_for_page st p) x y), st')"
    and s: "quote_loop st [q] x y
          = Some (fst (spec_resolve (quoter_get_for_page st p) x y), st')"
    and n: "fst (spec_resolve (quoter_get_for_page st p) x y) \<noteq> NoSelection"
    by auto
  from assms(1) l have "onQuoteSelection st p with_tags tags selected_text x y
      = Inr (fst (spec_resolve (quoter_get_for_page st p) x y), st')"
    by (simp add: onQuoteSelection_def)
  with Some s n show ?thesis by simp
qed

theorem first_match_decides_witness:
  "(10::int) \<le> 15
   \<and> spec_resolve (quoter_get_for_page [hl 1 12 30, hl 2 1 11] 0) 10 15
       = (ExtendedEnd, Some (hl 2 1 11))
   \<and> onQuoteSelection [hl 1 12 30, hl 2 1 11] 0 False [] ''t'' 10 15
       = Inr (ExtendedEnd, [hl 1 12 30, hl 2 1 15])"
proof -
  have h1: "''t'' \<noteq> []" by simp
  have h2: "(10::int) \<le> 15" by simp
  have r: "spec_resolve (quoter_get_for_page [hl 1 12 30, hl 2 1 11] 0) 10 15
       = (ExtendedEnd, Some (hl 2 1 11))"
    by code_simp
  have e: "quote_loop [hl 1 12 30, hl 2 1 11] [hl 2 1 11] 10 15
       = Some (ExtendedEnd, [hl 1 12 30, hl 2 1 15])"
    by code_simp
  from first_match_decides [OF h1 h2, of "[hl 1 12 30, hl 2 1 11]" 0 False "[]"]
  obtain st' where
    a: "onQuoteSelection [hl 1 12 30, hl 2 1 11] 0 False [] ''t'' 10 15 = Inr (ExtendedEnd, st')"
    and b: "quote_loop [hl 1 12 30, hl 2 1 11] [hl 2 1 11] 10 15 = Some (ExtendedEnd, st')"
    unfolding r fst_conv snd_conv by blast
  from b have "st' = [hl 1 12 30, hl 2 1 15]" unfolding e by simp
  with a h2 r show ?thesis by (simp only: simp_thms)
qed

section \<open>Creating a highlight\<close>

lemma fold_max_bounds: "(m::nat) \<le> fold max xs m \<and> (\<forall>a \<in> set xs. a \<le> fold max xs m)"
proof (induction xs arbitrary: m)
  case Nil
  show ?case by simp
next
  case (Cons a xs)
  from Cons [of "max a m"] show ?case by auto
qed

lemma quoter_next_id_fresh: "q \<in> set st \<Longrightarrow> q_id q < quoter_next_id st"
  using fold_max_bounds [of 0 "map q_id st"] by (auto simp: quoter_next_id_def less_Suc_eq_le)

lemma append_tags_new:
  assumes "q_id n = quoter_next_id st"
  shows "append_tags (st @ [n]) (q_id n) ts = st @ [n\<lparr>q_tags := q_tags n @ ts\<rparr>]"
proof -
  have "map (\<lambda>r. if q_id r = q_id n then r\<lparr>q_tags := q_tags r @ ts\<rparr> else r) st = st"
    using quoter_next_id_fresh [of _ st] assms by (intro map_idI) fastforce
  then show ?thesis by (simp add: append_tags_def)
qed

text \<open>
  When every highlight of the page passes, the loop runs to its end and the handler
  creates the row \<open>new_highlight\<close>.
\<close>

lemma handler_created:
  assumes "selected_text \<noteq> []" and "x \<le> y"
    and "list_all (\<lambda>r. passes r x y) (quoter_get_for_page st p)"
  shows "onQuoteSelection st p with_tags tags selected_text x y
           = Inr (Created, st @ [new_highlight st p with_tags tags selected_text x y])"
proof -
  have "quote_loop st (quoter_get_for_page st p @ []) x y = quote_loop st [] x y"
    using assms(3) by (rule quote_loop_prefix)
  then have l: "quote_loop st (quoter_get_for_page st p) x y = None" by simp
  show ?thesis
  proof (cases with_tags)
    case True
    have "append_tags (st @ [new_highlight st p False tags selected_text x y])
            (q_id (new_highlight st p False tags selected_text x y)) tags
          = st @ [new_highlight st p True tags selected_text x y]"
      by (subst append_tags_new) (simp_all add: new_highlight_def)
    with True assms(1,2) l show ?thesis
      by (simp add: onQuoteSelection_def quoter_create_def Let_def new_highlight_def)
  next
    case False
    with assms(1,2) l show ?thesis
      by (simp add: onQuoteSelection_def quoter_create_def Let_def new_highlight_def)
  qed
qed

lemma quoter_get_for_page_single:
  "page_quotes st p = [q] \<Longrightarrow> quoter_get_for_page st p = [q]"
  by (simp add: quoter_get_for_page_def page_quotes_def)

text \<open>
  C9. On a page that holds exactly one highlight \<open>q = [s, e]\<close>, a candidate \<open>[x, y]\<close>
  that starts at \<open>s\<close> and ends before \<open>e\<close>, or starts after \<open>s\<close> and ends at \<open>e\<close>,
  passes the loop body (no removal, rejection or extension), and the handler creates
  a highlight \<open>[x, y]\<close>: the page then holds \<open>q\<close> and the new highlight, and the two
  overlap.
\<close>

theorem shared_endpoint_creates_overlap:
  assumes "selected_text \<noteq> []" and "page_quotes st p = [q]" and "x \<le> y"
    and "(x = start_pos q \<and> y < end_pos q) \<or> (x > start_pos q \<and> y = end_pos q)"
  shows "passes q x y
    \<and> onQuoteSelection st p with_tags tags selected_text x y
        = Inr (Created, st @ [new_highlight st p with_tags tags selected_text x y])
    \<and> page_quotes (st @ [new_highlight st p with_tags tags selected_text x y]) p
        = [q, new_highlight st p with_tags tags selected_text x y]
    \<and> start_pos (new_highlight st p with_tags tags selected_text x y) = x
    \<and> end_pos (new_highlight st p with_tags tags selected_text x y) = y
    \<and> overlap q (new_highlight st p with_tags tags selected_text x y)"
proof -
  have pass: "passes q x y"
    using assms(3,4) unfolding passes_iff by (auto simp: exact_def inside_def within_def)
  then have "list_all (\<lambda>r. passes r x y) (quoter_get_for_page st p)"
    by (simp add: quoter_get_for_page_single [OF assms(2)])
  from handler_created [OF assms(1,3) this]
  have res: "onQuoteSelection st p with_tags tags selected_text x y
        = Inr (Created, st @ [new_highlight st p with_tags tags selected_text x y])" .
  have pg: "page_quotes (st @ [new_highlight st p with_tags tags selected_text x y]) p
        = [q, new_highlight st p with_tags tags selected_text x y]"
    using assms(2) by (simp add: page_quotes_def new_highlight_def)
  have ov: "overlap q (new_highlight st p with_tags tags selected_text x y)"
    using assms(3,4) by (auto simp: overlap_def new_highlight_def)
  from pass res pg ov show ?thesis by (simp add: new_highlight_def)
qed

theorem shared_endpoint_creates_overlap_witness:
  "page_quotes [hl 1 10 20] 0 = [hl 1 10 20]
   \<and> (10 = start_pos (hl 1 10 20) \<and> 15 < end_pos (hl 1 10 20))
   \<and> onQuoteSelection [hl 1 10 20] 0 False [] ''t'' 10 15 = Inr (Created, [hl 1 10 20, hl 2 10 15])
   \<and> overlap (hl 1 10 20) (hl 2 10 15)
   \<and> (15 > start_pos (hl 1 10 20) \<and> 20 = end_pos (hl 1 10 20))
   \<and> onQuoteSelection [hl 1 10 20] 0 False [] ''t'' 15 20 = Inr (Created, [hl 1 10 20, hl 2 15 20])
   \<and> overlap (hl 1 10 20) (hl 2 15 20)"
proof -
  have h1: "''t'' \<noteq> []" by simp
  have h2: "page_quotes [hl 1 10 20] 0 = [hl 1 10 20]" by code_simp
  have h3: "(10::int) \<le> 15" and h3': "(15::int) \<le> 20" by simp_all
  have a: "10 = start_pos (hl 1 10 20) \<and> 15 < end_pos (hl 1 10 20)"
    and b: "15 > start_pos (hl 1 10 20) \<and> 20 = end_pos (hl 1 10 20)"
    by (simp_all add: hl_def)
  have n: "new_highlight [hl 1 10 20] 0 False [] ''t'' 10 15 = hl 2 10 15"
    and n': "new_highlight [hl 1 10 20] 0 False [] ''t'' 15 20 = hl 2 15 20"
    by code_simp+
  from shared_endpoint_creates_overlap [OF h1 h2 h3 disjI1 [OF a], of False "[]"]
  have r: "onQuoteSelection [hl 1 10 20] 0 False [] ''t'' 10 15
             = Inr (Created, [hl 1 10 20, hl 2 10 15]) \<and> overlap (hl 1 10 20) (hl 2 10 15)"
    unfolding n by simp
  from shared_endpoint_creates_overlap [OF h1 h2 h3' disjI2 [OF b], of False "[]"]
  have r': "onQuoteSelection [hl 1 10 20] 0 False [] ''t'' 15 20
             = Inr (Created, [hl 1 10 20, hl 2 15 20]) \<and> overlap (hl 1 10 20) (hl 2 15 20)"
    unfolding n' by simp
  from h2 a b r r' show ?thesis by (simp only: simp_thms)
qed

section \<open>When the highlights of a page stay pairwise disjoint\<close>

lemma pairwise_disjoint_snoc:
  "pairwise_disjoint (xs @ [n]) \<longleftrightarrow> pairwise_disjoint xs \<and> (\<forall>q \<in> set xs. \<not> overlap q n)"
  by (induction xs) (auto simp: list_all_iff)

lemma pairwise_disjoint_filter:
  "pairwise_disjoint xs \<Longrightarrow> pairwise_disjoint (filter P xs)"
  by (induction xs) (auto simp: list_all_iff)

lemma pairwise_disjoint_map:
  assumes "pairwise_disjoint xs"
    and "\<And>a b. a \<in> set xs \<Longrightarrow> b \<in> set xs \<Longrightarrow> \<not> overlap a b \<Longrightarrow> \<not> overlap (f a) (f b)"
  shows "pairwise_disjoint (map f xs)"
  using assms by (induction xs) (auto simp: list_all_iff)

lemma not_passes_meets: "\<not> passes q x y \<Longrightarrow> x \<le> y \<Longrightarrow> meets q x y"
  unfolding passes_iff by (auto simp: exact_def inside_def within_def meets_def)

lemma page_quotes_delete:
  "page_quotes (quoter_delete st i) p = filter (\<lambda>q. q_id q \<noteq> i) (page_quotes st p)"
  by (induction st) (auto simp: page_quotes_def quoter_delete_def)

lemma page_quotes_set_end_pos:
  "page_quotes (set_end_pos st i y) p
     = map (\<lambda>r. if q_id r = i then r\<lparr>end_pos := y\<rparr> else r) (page_quotes st p)"
  by (induction st) (auto simp: page_quotes_def set_end_pos_def)

lemma page_quotes_set_start_pos:
  "page_quotes (set_start_pos st i x) p
     = map (\<lambda>r. if q_id r = i then r\<lparr>start_pos := x\<rparr> else r) (page_quotes st p)"
  by (induction st) (auto simp: page_quotes_def set_start_pos_def)

lemma page_quotes_subset: "set (page_quotes st p) \<subseteq> set st"
  by (auto simp: page_quotes_def)

text \<open>
  The state of a page before a selection: unique handles in the table, and on the
  page well-formed, pairwise disjoint highlights of which the candidate meets at
  most one, \<open>q\<close>, the one the loop body returns for.
\<close>

lemma extension_keeps_disjoint:
  assumes d: "distinct (map q_id st)" and wf: "well_formed (page_quotes st p)"
    and pd: "pairwise_disjoint (page_quotes st p)"
    and one: "\<forall>r \<in> set (page_quotes st p). meets r x y \<longrightarrow> r = q"
    and q: "q \<in> set (page_quotes st p)"
    and f: "\<And>r. f r = (if q_id r = q_id q then g r else r)"
    and g: "start_pos (g q) = min x (start_pos q)" "end_pos (g q) = max y (end_pos q)"
    and xy: "within q x \<or> within q y"
  shows "pairwise_disjoint (map f (page_quotes st p))"
proof (rule pairwise_disjoint_map [OF pd])
  fix a b
  assume a: "a \<in> set (page_quotes st p)" and b: "b \<in> set (page_quotes st p)"
    and n: "\<not> overlap a b"
  have wa: "start_pos a \<le> end_pos a" and wb: "start_pos b \<le> end_pos b"
    using wf a b by (auto simp: well_formed_def list_all_iff)
  have ida: "a = q" if "q_id a = q_id q"
    using distinct_ids_eq [OF d _ _ that] a q page_quotes_subset [of st p] by blast
  have idb: "b = q" if "q_id b = q_id q"
    using distinct_ids_eq [OF d _ _ that] b q page_quotes_subset [of st p] by blast
  have ne: "a \<noteq> b" using n wa by (auto simp: overlap_def)
  show "\<not> overlap (f a) (f b)"
  proof (cases "q_id a = q_id q")
    case True
    then have aq: "a = q" by (rule ida)
    with ne have "b \<noteq> q" by simp
    then have "q_id b \<noteq> q_id q" and "\<not> meets b x y" using idb one b by auto
    with n aq wb xy g show ?thesis
      by (auto simp: f overlap_def meets_def within_def)
  next
    case False
    show ?thesis
    proof (cases "q_id b = q_id q")
      case True
      then have bq: "b = q" by (rule idb)
      with ne have "a \<noteq> q" by simp
      then have "\<not> meets a x y" using one a by auto
      with n bq wa xy g False show ?thesis
        by (auto simp: f overlap_def meets_def within_def)
    next
      case nb: False
      with False n show ?thesis by (simp add: f)
    qed
  qed
qed

text \<open>
  C1, as amended. Let the handles of the table be unique and the highlights of the
  page well-formed (\<open>start_pos \<le> end_pos\<close>) and pairwise disjoint, and let the
  candidate \<open>[x, y]\<close>, \<open>x \<le> y\<close>, meet at most one highlight of the page and, if it
  meets one, let the loop body return for that one (removal, rejection or
  extension). Then the handler returns a result and the highlights of the page are
  pairwise disjoint again, and well-formed, and the handles still unique.
\<close>

theorem disjoint_preserved:
  assumes "selected_text \<noteq> []" and "x \<le> y" and "distinct (map q_id st)"
    and "well_formed (page_quotes st p)" and "pairwise_disjoint (page_quotes st p)"
    and "\<forall>q \<in> set (page_quotes st p). \<forall>r \<in> set (page_quotes st p).
           meets q x y \<longrightarrow> meets r x y \<longrightarrow> q = r"
    and "\<forall>q \<in> set (page_quotes st p). meets q x y \<longrightarrow> \<not> passes q x y"
  shows "\<exists>oc st'. onQuoteSelection st p with_tags tags selected_text x y = Inr (oc, st')
           \<and> pairwise_disjoint (page_quotes st' p) \<and> well_formed (page_quotes st' p)
           \<and> distinct (map q_id st')"
proof (cases "list_all (\<lambda>r. passes r x y) (quoter_get_for_page st p)")
  case True
  let ?n = "new_highlight st p with_tags tags selected_text x y"
  from handler_created [OF assms(1,2) True]
  have res: "onQuoteSelection st p with_tags tags selected_text x y = Inr (Created, st @ [?n])" .
  have pg: "page_quotes (st @ [?n]) p = page_quotes st p @ [?n]"
    by (simp add: page_quotes_def new_highlight_def)
  have "\<not> overlap r ?n" if "r \<in> set (page_quotes st p)" for r
  proof -
    from that True have "passes r x y"
      by (simp add: list_all_iff set_quoter_get_for_page)
    with assms(7) that have "\<not> meets r x y" by blast
    then show ?thesis by (simp add: overlap_def meets_def new_highlight_def)
  qed
  with assms(5) have pd: "pairwise_disjoint (page_quotes (st @ [?n]) p)"
    by (simp add: pg pairwise_disjoint_snoc)
  have "start_pos ?n \<le> end_pos ?n" using assms(2) by (simp add: new_highlight_def)
  with assms(4) have wf: "well_formed (page_quotes (st @ [?n]) p)"
    unfolding pg well_formed_def by simp
  have "q_id ?n \<notin> set (map q_id st)"
    using quoter_next_id_fresh [of _ st] by (fastforce simp: new_highlight_def)
  with assms(3) have "distinct (map q_id (st @ [?n]))" by simp
  with res pd wf show ?thesis by blast
next
  case False
  then have "\<exists>r \<in> set (quoter_get_for_page st p). \<not> passes r x y"
    by (simp add: list_all_iff)
  from split_list_first_prop [OF this] obtain pre q post where
    split: "quoter_get_for_page st p = pre @ q # post"
    and np: "\<not> passes q x y" and pre: "\<forall>r \<in> set pre. passes r x y"
    by auto
  from pre have pre': "list_all (\<lambda>r. passes r x y) pre" by (simp add: list_all_iff)
  have qp: "q \<in> set (page_quotes st p)"
    using split set_quoter_get_for_page [of st p] by auto
  have mq: "meets q x y" using np assms(2) by (rule not_passes_meets)
  have one: "\<forall>r \<in> set (page_quotes st p). meets r x y \<longrightarrow> r = q"
    using assms(6) qp mq by blast
  have wq: "start_pos q \<le> end_pos q"
    using assms(4) qp by (auto simp: well_formed_def list_all_iff)
  consider (a) "exact q x y"
    | (b) "\<not> exact q x y" "inside q x y"
    | (c) "\<not> exact q x y" "\<not> inside q x y" "within q x" "\<not> within q y"
    | (d) "\<not> exact q x y" "\<not> inside q x y" "\<not> within q x" "within q y"
    using np unfolding passes_iff by blast
  then show ?thesis
  proof cases
    case a
    then have "quote_loop st (q # post) x y = Some (Removed, quoter_delete st (q_id q))"
      by (rule quote_loop_exact)
    from handler_first [OF assms(1) split pre' this]
    have res: "onQuoteSelection st p with_tags tags selected_text x y
        = Inr (Removed, quoter_delete st (q_id q))" .
    have pd: "pairwise_disjoint (page_quotes (quoter_delete st (q_id q)) p)"
      using assms(5) by (simp add: page_quotes_delete pairwise_disjoint_filter)
    have wf: "well_formed (page_quotes (quoter_delete st (q_id q)) p)"
      using assms(4) by (auto simp: page_quotes_delete well_formed_def list_all_iff)
    have "distinct (map q_id (quoter_delete st (q_id q)))"
      using assms(3) by (simp add: quoter_delete_def distinct_map_filter)
    with res pd wf show ?thesis by blast
  next
    case b
    then have "quote_loop st (q # post) x y = Some (Rejected, st)"
      by (rule quote_loop_inside)
    from handler_first [OF assms(1) split pre' this] assms(3,4,5) show ?thesis by blast
  next
    case c
    then have "quote_loop st (q # post) x y = Some (ExtendedEnd, set_end_pos st (q_id q) y)"
      by (rule quote_loop_end)
    from handler_first [OF assms(1) split pre' this]
    have res: "onQuoteSelection st p with_tags tags selected_text x y
        = Inr (ExtendedEnd, set_end_pos st (q_id q) y)" .
    from c assms(2) have b: "start_pos q \<le> x" "x \<le> end_pos q" "end_pos q < y"
      by (auto simp: within_def)
    have "pairwise_disjoint
        (map (\<lambda>r. if q_id r = q_id q then r\<lparr>end_pos := y\<rparr> else r) (page_quotes st p))"
      using c(3) b
      by (intro extension_keeps_disjoint [OF assms(3,4,5) one qp, where g = "\<lambda>r. r\<lparr>end_pos := y\<rparr>"])
        simp_all
    then have pd: "pairwise_disjoint (page_quotes (set_end_pos st (q_id q) y) p)"
      by (simp add: page_quotes_set_end_pos)
    have wf: "well_formed (page_quotes (set_end_pos st (q_id q) y) p)"
    proof -
      have "start_pos r \<le> y" if "r \<in> set (page_quotes st p)" "q_id r = q_id q" for r
      proof -
        from that have "r = q"
          using distinct_ids_eq [OF assms(3), of q r] qp page_quotes_subset [of st p] by blast
        with b show ?thesis by simp
      qed
      with assms(4) show ?thesis
        by (auto simp: page_quotes_set_end_pos well_formed_def list_all_iff)
    qed
    have "distinct (map q_id (set_end_pos st (q_id q) y))"
      using assms(3) by (simp add: map_field_set_end_pos)
    with res pd wf show ?thesis by blast
  next
    case d
    then have "quote_loop st (q # post) x y = Some (ExtendedStart, set_start_pos st (q_id q) x)"
      by (rule quote_loop_start)
    from handler_first [OF assms(1) split pre' this]
    have res: "onQuoteSelection st p with_tags tags selected_text x y
        = Inr (ExtendedStart, set_start_pos st (q_id q) x)" .
    from d assms(2) have b: "start_pos q \<le> y" "y \<le> end_pos q" "x < start_pos q"
      by (auto simp: within_def)
    have "pairwise_disjoint
        (map (\<lambda>r. if q_id r = q_id q then r\<lparr>start_pos := x\<rparr> else r) (page_quotes st p))"
      using d(4) b
      by (intro extension_keeps_disjoint [OF assms(3,4,5) one qp, where g = "\<lambda>r. r\<lparr>start_pos := x\<rparr>"])
        simp_all
    then have pd: "pairwise_disjoint (page_quotes (set_start_pos st (q_id q) x) p)"
      by (simp add: page_quotes_set_start_pos)
    have wf: "well_formed (page_quotes (set_start_pos st (q_id q) x) p)"
    proof -
      have "x \<le> end_pos r" if "r \<in> set (page_quotes st p)" "q_id r = q_id q" for r
      proof -
        from that have "r = q"
          using distinct_ids_eq [OF assms(3), of q r] qp page_quotes_subset [of st p] by blast
        with b show ?thesis by simp
      qed
      with assms(4) show ?thesis
        by (auto simp: page_quotes_set_start_pos well_formed_def list_all_iff)
    qed
    have "distinct (map q_id (set_start_pos st (q_id q) x))"
      using assms(3) by (simp add: map_field_set_start_pos)
    with res pd wf show ?thesis by blast
  qed
qed

theorem disjoint_preserved_witness:
  "(5::int) \<le> 8 \<and> distinct (map q_id [hl 1 2 6, hl 2 9 14])
   \<and> well_formed (page_quotes [hl 1 2 6, hl 2 9 14] 0)
   \<and> pairwise_disjoint (page_quotes [hl 1 2 6, hl 2 9 14] 0)
   \<and> meets (hl 1 2 6) 5 8 \<and> \<not> meets (hl 2 9 14) 5 8 \<and> \<not> passes (hl 1 2 6) 5 8
   \<and> onQuoteSelection [hl 1 2 6, hl 2 9 14] 0 False [] ''t'' 5 8
       = Inr (ExtendedEnd, [hl 1 2 8, hl 2 9 14])
   \<and> pairwise_disjoint (page_quotes [hl 1 2 8, hl 2 9 14] 0)"
proof -
  have h1: "''t'' \<noteq> []" by simp
  have h2: "(5::int) \<le> 8" by simp
  have h3: "distinct (map q_id [hl 1 2 6, hl 2 9 14])" by code_simp
  have h4: "well_formed (page_quotes [hl 1 2 6, hl 2 9 14] 0)" by code_simp
  have h5: "pairwise_disjoint (page_quotes [hl 1 2 6, hl 2 9 14] 0)" by code_simp
  have h6: "\<forall>q \<in> set (page_quotes [hl 1 2 6, hl 2 9 14] 0).
            \<forall>r \<in> set (page_quotes [hl 1 2 6, hl 2 9 14] 0).
              meets q 5 8 \<longrightarrow> meets r 5 8 \<longrightarrow> q = r"
    by code_simp
  have h7: "\<forall>q \<in> set (page_quotes [hl 1 2 6, hl 2 9 14] 0). meets q 5 8 \<longrightarrow> \<not> passes q 5 8"
    by code_simp
  have m: "meets (hl 1 2 6) 5 8 \<and> \<not> meets (hl 2 9 14) 5 8 \<and> \<not> passes (hl 1 2 6) 5 8"
    by code_simp
  have e: "onQuoteSelection [hl 1 2 6, hl 2 9 14] 0 False [] ''t'' 5 8
       = Inr (ExtendedEnd, [hl 1 2 8, hl 2 9 14])"
    by code_simp
  from disjoint_preserved [OF h1 h2 h3 h4 h5 h6 h7, of False "[]"]
  have "pairwise_disjoint (page_quotes [hl 1 2 8, hl 2 9 14] 0)"
    unfolding e by simp
  with h2 h3 h4 h5 m e show ?thesis by (simp only: simp_thms)
qed

text \<open>
  The claim as stated, for every page of pairwise disjoint highlights and every
  candidate, fails: two selections on an empty page store the disjoint \<open>[2, 6]\<close> and
  \<open>[9, 14]\<close>; the candidate \<open>[4, 11]\<close> starts in the first and ends in the second; the
  loop returns at the first and extends it to \<open>[2, 11]\<close>, which overlaps \<open>[9, 14]\<close>.
\<close>

theorem disjoint_not_preserved_counterexample:
  "onQuoteSelection [] 0 False [] ''t'' 2 6 = Inr (Created, [hl 1 2 6])
   \<and> onQuoteSelection [hl 1 2 6] 0 False [] ''t'' 9 14 = Inr (Created, [hl 1 2 6, hl 2 9 14])
   \<and> pairwise_disjoint (page_quotes [hl 1 2 6, hl 2 9 14] 0)
   \<and> (4::int) \<le> 11
   \<and> onQuoteSelection [hl 1 2 6, hl 2 9 14] 0 False [] ''t'' 4 11
       = Inr (ExtendedEnd, [hl 1 2 11, hl 2 9 14])
   \<and> \<not> pairwise_disjoint (page_quotes [hl 1 2 11, hl 2 9 14] 0)"
  by code_simp

section \<open>The loop over the bookmarks of the page\<close>

lemma bookmark_loop_eq:
  "bookmark_loop lino l bs (c, st) =
     (c + length (filter (\<lambda>b. lino (position b) = l) bs),
      filter (\<lambda>b. b_id b \<notin> set (map b_id (filter (\<lambda>b. lino (position b) = l) bs))) st)"
proof (induction bs arbitrary: c st)
  case Nil
  show ?case by simp
next
  case (Cons a bs)
  show ?case
  proof (cases "lino (position a) = l")
    case True
    have "filter (\<lambda>b. b_id b \<notin> set (map b_id (filter (\<lambda>b. lino (position b) = l) bs)))
            (bookmarker_delete st (b_id a))
          = filter (\<lambda>b. b_id b \<notin> set (map b_id (filter (\<lambda>b. lino (position b) = l) (a # bs)))) st"
      using True unfolding bookmarker_delete_def filter_filter
      by (intro filter_cong) auto
    with True Cons [of "c + 1" "bookmarker_delete st (b_id a)"] show ?thesis by simp
  next
    case False
    with Cons [of c st] show ?thesis by simp
  qed
qed

lemma filter_get_for_page:
  "filter (\<lambda>b. lino (position b) = l) (bookmarker_get_for_page st p)
     = sort_key position (line_bookmarks lino st p l)"
  by (simp add: bookmarker_get_for_page_def line_bookmarks_def filter_sort)

lemma bookmark_loop_page:
  "bookmark_loop lino l (bookmarker_get_for_page st p) (0, st)
     = (length (line_bookmarks lino st p l), without_line lino st p l)"
  by (simp add: bookmark_loop_eq filter_get_for_page without_line_def)

lemma add_bookmark_eq:
  "add_bookmark lino st p insertionPoint name =
     (if line_bookmarks lino st p (lino insertionPoint) \<noteq> [] \<and> name = []
      then (BookmarkRemoved, without_line lino st p (lino insertionPoint))
      else (BookmarkAdded,
            bookmarker_create (without_line lino st p (lino insertionPoint)) p name insertionPoint))"
  by (simp add: add_bookmark_def Let_def bookmark_loop_page)

lemma line_bookmarks_without:
  "line_bookmarks lino (without_line lino st p l) p l' =
     filter (\<lambda>b. b_id b \<notin> set (map b_id (line_bookmarks lino st p l))) (line_bookmarks lino st p l')"
  unfolding line_bookmarks_def without_line_def filter_filter
  by (rule filter_cong) auto

lemma line_bookmarks_without_same: "line_bookmarks lino (without_line lino st p l) p l = []"
  unfolding line_bookmarks_without by (simp add: filter_empty_conv)

lemma length_line_bookmarks_without:
  "length (line_bookmarks lino (without_line lino st p l) p l') \<le> length (line_bookmarks lino st p l')"
  unfolding line_bookmarks_without by simp

lemma line_bookmarks_create:
  "line_bookmarks lino (bookmarker_create st p name pos) p l =
     line_bookmarks lino st p l @
       (if lino pos = l
        then [\<lparr>b_id = bookmarker_next_id st, b_page = p, b_title = name, position = pos\<rparr>]
        else [])"
  by (simp add: line_bookmarks_def bookmarker_create_def)



lemma without_line_distinct:
  assumes "distinct (map b_id st)"
  shows "without_line lino st p l = filter (\<lambda>b. \<not> (b_page b = p \<and> lino (position b) = l)) st"
  unfolding without_line_def
proof (rule filter_cong [OF refl])
  fix b
  assume b: "b \<in> set st"
  have inj: "inj_on b_id (set st)" using assms by (simp add: distinct_map)
  show "(b_id b \<notin> set (map b_id (line_bookmarks lino st p l)))
      = (\<not> (b_page b = p \<and> lino (position b) = l))"
  proof
    assume "b_id b \<notin> set (map b_id (line_bookmarks lino st p l))"
    then have "b \<notin> set (line_bookmarks lino st p l)" by force
    with b show "\<not> (b_page b = p \<and> lino (position b) = l)"
      by (simp add: line_bookmarks_def)
  next
    assume n: "\<not> (b_page b = p \<and> lino (position b) = l)"
    show "b_id b \<notin> set (map b_id (line_bookmarks lino st p l))"
    proof
      assume "b_id b \<in> set (map b_id (line_bookmarks lino st p l))"
      then obtain c where c: "c \<in> set (line_bookmarks lino st p l)" and e: "b_id c = b_id b"
        by force
      from c have "c \<in> set st" by (simp add: line_bookmarks_def)
      from inj_onD [OF inj e this b] have "c = b" .
      with c n show False by (simp add: line_bookmarks_def)
    qed
  qed
qed

section \<open>At most one bookmark on a line\<close>

text \<open>
  C8. When every line of the current page holds at most one bookmark, it still does
  after \<^verbatim>\<open>_add_bookmark\<close> with any name, so after the handler of "Add Bookmark" and
  after the handler of "Add Named Bookmark" when it adds at all.
\<close>

theorem one_bookmark_per_line:
  assumes "\<forall>l. length (line_bookmarks lino st p l) \<le> 1"
  shows "(\<forall>l. length (line_bookmarks lino (snd (add_bookmark lino st p insertionPoint name)) p l) \<le> 1)
    \<and> (\<forall>l. length (line_bookmarks lino (snd (onAddBookmark lino st p insertionPoint)) p l) \<le> 1)
    \<and> (\<forall>r. onAddNamedBookmark lino st p insertionPoint bookmark_name = Some r \<longrightarrow>
          (\<forall>l. length (line_bookmarks lino (snd r) p l) \<le> 1))"
proof -
  have main: "length (line_bookmarks lino (snd (add_bookmark lino st p insertionPoint n)) p l) \<le> 1"
    for n l
  proof (cases "l = lino insertionPoint")
    case True
    then show ?thesis
      by (simp add: add_bookmark_eq line_bookmarks_create line_bookmarks_without_same)
  next
    case False
    from assms have "length (line_bookmarks lino st p l) \<le> 1" ..
    with length_line_bookmarks_without [of lino st p "lino insertionPoint" l]
    have "length (line_bookmarks lino (without_line lino st p (lino insertionPoint)) p l) \<le> 1"
      by (rule le_trans)
    with False show ?thesis by (simp add: add_bookmark_eq line_bookmarks_create)
  qed
  have named: "\<forall>l. length (line_bookmarks lino (snd r) p l) \<le> 1"
    if "onAddNamedBookmark lino st p insertionPoint bookmark_name = Some r" for r
    using that main
    by (auto simp: onAddNamedBookmark_def split: option.splits if_splits)
  from main named show ?thesis by (simp add: onAddBookmark_def)
qed

theorem one_bookmark_per_line_witness:
  "(\<forall>l. length (line_bookmarks line_of [bm 1 [] 5, bm 2 [] 12] 0 l) \<le> 1)
   \<and> add_bookmark line_of [bm 1 [] 5, bm 2 [] 12] 0 7 ''n'' = (BookmarkAdded, [bm 2 [] 12, bm 3 ''n'' 7])
   \<and> (\<forall>l. length (line_bookmarks line_of [bm 2 [] 12, bm 3 ''n'' 7] 0 l) \<le> 1)"
proof -
  have h: "\<forall>l. length (line_bookmarks line_of [bm 1 [] 5, bm 2 [] 12] 0 l) \<le> 1"
    by (simp add: line_bookmarks_def bm_def line_of_def)
  have e: "add_bookmark line_of [bm 1 [] 5, bm 2 [] 12] 0 7 ''n''
      = (BookmarkAdded, [bm 2 [] 12, bm 3 ''n'' 7])"
    by code_simp
  from one_bookmark_per_line [OF h, of 7 "''n''"]
  have "\<forall>l. length (line_bookmarks line_of [bm 2 [] 12, bm 3 ''n'' 7] 0 l) \<le> 1"
    unfolding e snd_conv by blast
  with h e show ?thesis by (simp only: simp_thms)
qed

section \<open>A named bookmark replaces the bookmarks of its line\<close>

text \<open>
  C10. With a name that is not empty, \<^verbatim>\<open>_add_bookmark\<close> always adds: the table is
  the old one without the rows that carry the handle of a bookmark of the caret's
  line on the current page (with unique handles: without exactly the bookmarks of
  that line), followed by a new bookmark with the given name at the caret position;
  no row with the handle of an old bookmark of the line is left among the old rows,
  and the line holds the new bookmark only. The handler removes without adding
  exactly when the name is empty and the line held a bookmark.
\<close>

theorem named_bookmark_replaces:
  "(name \<noteq> [] \<longrightarrow>
      add_bookmark lino st p insertionPoint name
        = (BookmarkAdded,
           without_line lino st p (lino insertionPoint) @
             [\<lparr>b_id = bookmarker_next_id (without_line lino st p (lino insertionPoint)),
               b_page = p, b_title = name, position = insertionPoint\<rparr>])
      \<and> line_bookmarks lino (snd (add_bookmark lino st p insertionPoint name)) p (lino insertionPoint)
        = [\<lparr>b_id = bookmarker_next_id (without_line lino st p (lino insertionPoint)),
             b_page = p, b_title = name, position = insertionPoint\<rparr>])
   \<and> line_bookmarks lino (without_line lino st p (lino insertionPoint)) p (lino insertionPoint) = []
   \<and> set (without_line lino st p (lino insertionPoint)) \<subseteq> set st
   \<and> (\<forall>b \<in> set (line_bookmarks lino st p (lino insertionPoint)).
        \<forall>r \<in> set (without_line lino st p (lino insertionPoint)). b_id r \<noteq> b_id b)
   \<and> (distinct (map b_id st) \<longrightarrow>
        without_line lino st p (lino insertionPoint)
          = filter (\<lambda>b. \<not> (b_page b = p \<and> lino (position b) = lino insertionPoint)) st)
   \<and> (fst (add_bookmark lino st p insertionPoint name) = BookmarkRemoved
        \<longleftrightarrow> name = [] \<and> line_bookmarks lino st p (lino insertionPoint) \<noteq> [])"
proof -
  have a: "line_bookmarks lino (without_line lino st p (lino insertionPoint)) p (lino insertionPoint) = []"
    by (rule line_bookmarks_without_same)
  have b: "set (without_line lino st p (lino insertionPoint)) \<subseteq> set st"
    by (auto simp: without_line_def)
  have c: "\<forall>b \<in> set (line_bookmarks lino st p (lino insertionPoint)).
        \<forall>r \<in> set (without_line lino st p (lino insertionPoint)). b_id r \<noteq> b_id b"
    by (auto simp: without_line_def)
  have d: "distinct (map b_id st) \<longrightarrow>
        without_line lino st p (lino insertionPoint)
          = filter (\<lambda>b. \<not> (b_page b = p \<and> lino (position b) = lino insertionPoint)) st"
    using without_line_distinct by blast
  have e: "fst (add_bookmark lino st p insertionPoint name) = BookmarkRemoved
        \<longleftrightarrow> name = [] \<and> line_bookmarks lino st p (lino insertionPoint) \<noteq> []"
    by (auto simp: add_bookmark_eq)
  have f: "add_bookmark lino st p insertionPoint name
        = (BookmarkAdded,
           without_line lino st p (lino insertionPoint) @
             [\<lparr>b_id = bookmarker_next_id (without_line lino st p (lino insertionPoint)),
               b_page = p, b_title = name, position = insertionPoint\<rparr>])" if "name \<noteq> []"
    using that by (simp add: add_bookmark_eq bookmarker_create_def)
  have g: "line_bookmarks lino (snd (add_bookmark lino st p insertionPoint name)) p (lino insertionPoint)
        = [\<lparr>b_id = bookmarker_next_id (without_line lino st p (lino insertionPoint)),
             b_page = p, b_title = name, position = insertionPoint\<rparr>]" if "name \<noteq> []"
    using that by (simp add: add_bookmark_eq line_bookmarks_create a)
  from a b c d e f g show ?thesis by blast
qed

theorem named_bookmark_replaces_witness:
  "''n'' \<noteq> [] \<and> line_bookmarks line_of [bm 1 [] 5, bm 2 [] 12, bm 3 ''m'' 8] 0 (line_of 7)
       = [bm 1 [] 5, bm 3 ''m'' 8]
   \<and> distinct (map b_id [bm 1 [] 5, bm 2 [] 12, bm 3 ''m'' 8])
   \<and> add_bookmark line_of [bm 1 [] 5, bm 2 [] 12, bm 3 ''m'' 8] 0 7 ''n''
       = (BookmarkAdded, [bm 2 [] 12, bm 3 ''n'' 7])
   \<and> line_bookmarks line_of [bm 2 [] 12, bm 3 ''n'' 7] 0 (line_of 7) = [bm 3 ''n'' 7]"
proof -
  let ?st = "[bm 1 [] 5, bm 2 [] 12, bm 3 ''m'' 8]"
  have n: "''n'' \<noteq> []" by simp
  have l: "line_bookmarks line_of ?st 0 (line_of 7) = [bm 1 [] 5, bm 3 ''m'' 8]" by code_simp
  have d: "distinct (map b_id ?st)" by code_simp
  have w: "without_line line_of ?st 0 (line_of 7) = [bm 2 [] 12]" by code_simp
  have i: "bookmarker_next_id [bm 2 [] 12] = 3" by code_simp
  have m: "\<lparr>b_id = 3, b_page = 0, b_title = ''n'', position = 7\<rparr> = bm 3 ''n'' 7"
    by (simp add: bm_def)
  note t = named_bookmark_replaces [of "''n''" line_of ?st 0 7, unfolded w i m]
  from t n have a: "add_bookmark line_of ?st 0 7 ''n''
      = (BookmarkAdded, [bm 2 [] 12] @ [bm 3 ''n'' 7])"
    by blast
  from t n have "line_bookmarks line_of (snd (add_bookmark line_of ?st 0 7 ''n'')) 0 (line_of 7)
      = [bm 3 ''n'' 7]"
    by blast
  then have b: "line_bookmarks line_of ([bm 2 [] 12] @ [bm 3 ''n'' 7]) 0 (line_of 7)
      = [bm 3 ''n'' 7]"
    unfolding a snd_conv .
  from n l d a b show ?thesis by (simp only: append.simps simp_thms)
qed

section \<open>Adding a bookmark without a name toggles\<close>




end
